theory Spec2Isabelle
  imports Main "HOL-Library.AList"
begin

section \<open>Duplicate-tag resolution engine (the tag-merge script plugin)\<close>

text \<open>
  This theory embeds the tag-merge script: the normalisation helpers \<open>norm\<close>, \<open>nsKey\<close>
  and \<open>isOtherLike\<close>, the index builder \<open>ingest\<close>, the edge proposal loop, the chain
  resolver \<open>resolve\<close>, the post-resolution filter with its sort, and the body of
  \<open>runPlugin\<close> with its calls to the host.

  Modelling decisions.
  \<^item> Strings are \<open>string\<close>; the model covers ASCII text: \<open>trim\<close> strips the ASCII white
    space characters and \<open>toLowerCase\<close> maps \<open>A\<close> .. \<open>Z\<close> to \<open>a\<close> .. \<open>z\<close>.  The general
    theorems below use nothing of the two but their names; only the examples evaluate them.
  \<^item> A host-supplied \<open>id\<close> is a JavaScript number after \<open>Number(...)\<close>: an integer, or one
    of the non-finite values. Ids that pass the loader's check are kept as \<open>int\<close>.  The
    \<open>total\<close> of a page response and the numeric parameters are integers.
  \<^item> A JavaScript \<open>Map\<close> is an association list in insertion order: \<open>get\<close> is
    \<open>map_of\<close>, and \<open>set\<close> is \<open>AList.update\<close>, which overwrites in place and appends a
    new key at the end. A \<open>Set\<close> that is iterated is a duplicate-free list in insertion
    order; the \<open>seen\<close> set of \<open>resolve\<close>, only ever tested and extended, is a HOL set.
\<close>

subsection \<open>Data model\<close>

datatype js_number = Num int | NaN | PosInfinity | NegInfinity

text \<open>\<open>TagListItem\<close> as the host sends it.\<close>

record TagListItem =
  item_id :: js_number
  item_namespace :: string
  item_name :: string
  item_translation_text :: "string option"

text \<open>The normalised \<open>TagListItem\<close> that \<open>ingest\<close> pushes onto \<open>tags\<close>.\<close>

record Tag =
  tag_id :: int
  tag_namespace :: string
  tag_name :: string
  tag_translation_text :: string

record TagsListResponse =
  resp_total :: int
  resp_items :: "TagListItem list"

text \<open>The four collections that \<open>runPlugin\<close> fills while loading.\<close>

record load_state =
  tags :: "Tag list"
  translationIndex :: "(string \<times> int) list"
  canonicalCandidates :: "(string \<times> int list) list"
  idToNs :: "(int \<times> string) list"

definition empty_state :: load_state where
  "empty_state = \<lparr>tags = [], translationIndex = [], canonicalCandidates = [], idToNs = []\<rparr>"

subsection \<open>Normalisation helpers\<close>

definition is_space :: "char \<Rightarrow> bool" where
  "is_space c \<longleftrightarrow> c \<in> {CHR 0x09, CHR 0x0A, CHR 0x0B, CHR 0x0C, CHR 0x0D, CHR 0x20}"

definition trim :: "string \<Rightarrow> string" where
  "trim s = rev (dropWhile is_space (rev (dropWhile is_space s)))"

definition lower_char :: "char \<Rightarrow> char" where
  "lower_char c =
     (case map_of (zip ''ABCDEFGHIJKLMNOPQRSTUVWXYZ'' ''abcdefghijklmnopqrstuvwxyz'') c of
        None \<Rightarrow> c
      | Some l \<Rightarrow> l)"

definition toLowerCase :: "string \<Rightarrow> string" where
  "toLowerCase s = map lower_char s"

definition norm :: "string \<Rightarrow> string" where
  "norm s = toLowerCase (trim s)"

definition nsKey :: "string \<Rightarrow> string \<Rightarrow> string" where
  "nsKey ns v = ns @ [CHR 0x00] @ v"

definition isOtherLike :: "string \<Rightarrow> bool" where
  "isOtherLike ns \<longleftrightarrow> ns = ''other'' \<or> ns = ''''"

subsection \<open>Index builder: \<open>ingest\<close>\<close>

text \<open>\<open>set.add(id)\<close> on a \<open>Set\<close>.\<close>

definition set_add :: "int \<Rightarrow> int list \<Rightarrow> int list" where
  "set_add x xs = (if x \<in> set xs then xs else xs @ [x])"

text \<open>
  \<open>let set = canonicalCandidates.get(key); if (!set) canonicalCandidates.set(key, (set = new Set()));
  set.add(id);\<close>
\<close>

definition add_candidate :: "string \<Rightarrow> int \<Rightarrow> (string \<times> int list) list \<Rightarrow> (string \<times> int list) list" where
  "add_candidate key i cc =
     (case map_of cc key of
        None \<Rightarrow> AList.update key [i] cc
      | Some s \<Rightarrow> AList.update key (set_add i s) cc)"

text \<open>
  \<open>const prev = translationIndex.get(k); if (prev === undefined) translationIndex.set(k, id);
  else if (prev !== id) translationIndex.set(k, 0);\<close>
\<close>

definition note_translation :: "string \<Rightarrow> int \<Rightarrow> (string \<times> int) list \<Rightarrow> (string \<times> int) list" where
  "note_translation k i ti =
     (case map_of ti k of
        None \<Rightarrow> AList.update k i ti
      | Some prev \<Rightarrow> if prev \<noteq> i then AList.update k 0 ti else ti)"

text \<open>One iteration of the \<open>for (const it of items || [])\<close> loop of \<open>ingest\<close>.\<close>

definition ingest_item :: "TagListItem \<Rightarrow> load_state \<Rightarrow> load_state" where
  "ingest_item it s =
     (case item_id it of
        Num i \<Rightarrow>
          if i \<le> 0 then s
          else
            let ns = trim (item_namespace it);
                name = trim (item_name it);
                t = trim (case item_translation_text it of None \<Rightarrow> '''' | Some x \<Rightarrow> x);
                s1 = s\<lparr>tags := tags s @
                         [\<lparr>tag_id = i, tag_namespace = ns, tag_name = name, tag_translation_text = t\<rparr>],
                       idToNs := AList.update i ns (idToNs s)\<rparr>
            in if \<not> isOtherLike ns then
                 let nameKey = norm name;
                     s2 = (if nameKey \<noteq> [] then
                             s1\<lparr>canonicalCandidates := add_candidate nameKey i (canonicalCandidates s1)\<rparr>
                           else s1);
                     trKey = norm t
                 in if trKey \<noteq> [] then
                      s2\<lparr>canonicalCandidates := add_candidate trKey i (canonicalCandidates s2),
                         translationIndex := note_translation (nsKey ns trKey) i (translationIndex s2)\<rparr>
                    else s2
               else s1
      | _ \<Rightarrow> s)"

definition ingest :: "TagListItem list \<Rightarrow> load_state \<Rightarrow> load_state" where
  "ingest its s = fold ingest_item its s"

subsection \<open>Merge planner\<close>

text \<open>One iteration of the \<open>for (const it of tags)\<close> loop that fills \<open>sourceToTarget\<close>.\<close>

definition propose :: "load_state \<Rightarrow> Tag \<Rightarrow> (int \<times> int) list \<Rightarrow> (int \<times> int) list" where
  "propose s it stt =
     (let sourceId = tag_id it;
          ns = trim (tag_namespace it);
          nameKey = norm (tag_name it)
      in if nameKey = [] then stt
         else if isOtherLike ns then
           (case map_of (canonicalCandidates s) nameKey of
              Some [targetId] \<Rightarrow>
                if targetId \<noteq> 0 \<and> targetId \<noteq> sourceId then AList.update sourceId targetId stt
                else stt
            | _ \<Rightarrow> stt)
         else
           (case map_of (translationIndex s) (nsKey ns nameKey) of
              None \<Rightarrow> stt
            | Some targetId \<Rightarrow>
                if targetId = 0 \<or> targetId = sourceId then stt
                else AList.update sourceId targetId stt))"

definition sourceToTarget :: "load_state \<Rightarrow> (int \<times> int) list" where
  "sourceToTarget s = fold (propose s) (tags s) []"

text \<open>
  The \<open>while (true)\<close> loop of \<open>resolve\<close>, entered with \<open>cur\<close> and \<open>seen\<close>.  The result is
  \<open>None\<close> when the loop does not return.
\<close>

partial_function (option) resolve_loop :: "(int \<times> int) list \<Rightarrow> int \<Rightarrow> int set \<Rightarrow> int option" where
  "resolve_loop stt cur seen =
     (case map_of stt cur of
        None \<Rightarrow> Some cur
      | Some next \<Rightarrow>
          if next = 0 then Some cur
          else if next \<in> seen then Some cur
          else resolve_loop stt next (insert next seen))"

declare resolve_loop.simps [code]

definition resolve :: "(int \<times> int) list \<Rightarrow> int \<Rightarrow> int option" where
  "resolve stt i = resolve_loop stt i {}"

text \<open>\<open>idToNs.get(id) ?? ""\<close>\<close>

definition nsOf :: "load_state \<Rightarrow> int \<Rightarrow> string" where
  "nsOf s i = (case map_of (idToNs s) i of None \<Rightarrow> '''' | Some ns \<Rightarrow> ns)"

text \<open>
  The loop \<open>for (const [sourceId, targetId] of sourceToTarget.entries())\<close> that pushes onto
  \<open>merges\<close>, over the entries that are still to be visited.
\<close>

fun collect_merges :: "load_state \<Rightarrow> (int \<times> int) list \<Rightarrow> (int \<times> int) list \<Rightarrow> (int \<times> int) list option" where
  "collect_merges s stt [] = Some []"
| "collect_merges s stt ((sourceId, targetId) # es) =
     (case resolve stt targetId of
        None \<Rightarrow> None
      | Some finalTarget \<Rightarrow>
          (case collect_merges s stt es of
             None \<Rightarrow> None
           | Some ms \<Rightarrow>
               if finalTarget = sourceId then Some ms
               else if isOtherLike (nsOf s sourceId) \<and> isOtherLike (nsOf s finalTarget) then Some ms
               else Some ((sourceId, finalTarget) # ms)))"

text \<open>
  \<open>merges\<close> after \<open>merges.sort((a, b) => a.sourceId - b.sourceId)\<close>: a stable sort on the
  source id.  A merge \<open>{sourceId, targetId}\<close> is the pair \<open>(sourceId, targetId)\<close>.
\<close>

definition merge_plan :: "load_state \<Rightarrow> (int \<times> int) list option" where
  "merge_plan s =
     (let stt = sourceToTarget s
      in case collect_merges s stt stt of
           None \<Rightarrow> None
         | Some merges \<Rightarrow> Some (sort_key fst merges))"

subsection \<open>\<open>runPlugin\<close>: loading, planning, applying\<close>

text \<open>
  The host is reached through \<open>callHost\<close> only.  \<open>tags.list\<close> answers a request
  \<open>(lang, limit, offset)\<close> with a page or rejects it (\<open>None\<close>); \<open>tags.merge\<close>, called as the
  \<open>applied\<close>-th merge with \<open>(sourceId, targetId, deleteSource)\<close>, succeeds or rejects.
  A rejected call throws out of \<open>runPlugin\<close>.
\<close>

record host =
  tags_list :: "string \<Rightarrow> int \<Rightarrow> int \<Rightarrow> TagsListResponse option"
  tags_merge :: "nat \<Rightarrow> int \<Rightarrow> int \<Rightarrow> bool \<Rightarrow> bool"

text \<open>
  The plugin parameters as \<open>getParams\<close> hands them over, \<open>None\<close> for a missing one:
  \<open>page_size\<close> and \<open>max_merges\<close> after \<open>Number(...)\<close>, the two flags after \<open>Boolean(...)\<close>.
\<close>

record params =
  lang :: "string option"
  page_size :: "int option"
  dry_run :: "bool option"
  delete_source :: "bool option"
  max_merges :: "int option"

definition lang_of :: "params \<Rightarrow> string" where
  "lang_of p =
     (let l = trim (case lang p of None \<Rightarrow> ''zh'' | Some x \<Rightarrow> x) in if l = [] then ''zh'' else l)"

definition pageSize_of :: "params \<Rightarrow> int" where
  "pageSize_of p = min 2000 (max 1 (case page_size p of None \<Rightarrow> 1000 | Some n \<Rightarrow> n))"

definition dryRun_of :: "params \<Rightarrow> bool" where
  "dryRun_of p = (case dry_run p of None \<Rightarrow> True | Some b \<Rightarrow> b)"

definition deleteSource_of :: "params \<Rightarrow> bool" where
  "deleteSource_of p = (case delete_source p of None \<Rightarrow> True | Some b \<Rightarrow> b)"

definition maxMerges_of :: "params \<Rightarrow> int" where
  "maxMerges_of p = max 0 (case max_merges p of None \<Rightarrow> 0 | Some n \<Rightarrow> n)"

text \<open>
  What a run does that can be observed from outside, in order.  A host call is recorded
  with its arguments, \<open>tags.list\<close> also with the host's answer.  \<open>reportProgress\<close> is
  recorded with the numbers of its label; its percentage is floating-point arithmetic on
  them and is left out.  \<open>logInfo\<close> is recorded with its message.
\<close>

datatype phase = Loading int int | Building nat | Merging nat nat

record run_result =
  res_dry_run :: bool
  res_total_tags :: nat
  res_planned_merges :: nat
  res_applied_merges :: "nat option"

datatype event =
    LogInfo string
  | CallTagsList string int int "TagsListResponse option"
  | CallTagsMerge int int bool
  | ReportProgress phase
  | EmitMergePlan "(int \<times> int) list" nat
  | OutputResult run_result

datatype error = HostCallRejected string

text \<open>
  The \<open>while (offset < total)\<close> loop of the loader, \<open>total_tags\<close> standing for
  \<open>total\<close>.  The result is \<open>None\<close> when the loop
  does not return, \<open>Inl\<close> when a page request is rejected.
\<close>

partial_function (option) load_pages ::
  "host \<Rightarrow> string \<Rightarrow> int \<Rightarrow> int \<Rightarrow> int \<Rightarrow> load_state \<Rightarrow> event list
     \<Rightarrow> (event list \<times> (error + load_state)) option" where
  "load_pages h l pageSize total_tags offset s ev =
     (if offset < total_tags then
        (let page = tags_list h l pageSize offset;
             ev1 = ev @ [ReportProgress (Loading offset total_tags), CallTagsList l pageSize offset page]
         in case page of
              None \<Rightarrow> Some (ev1, Inl (HostCallRejected ''tags.list''))
            | Some r \<Rightarrow> load_pages h l pageSize total_tags (offset + pageSize) (ingest (resp_items r) s) ev1)
      else Some (ev, Inr s))"

declare load_pages.simps [code]

text \<open>The loader: the first page, which tells \<open>total\<close>, then the loop.\<close>

definition load_tags ::
  "host \<Rightarrow> string \<Rightarrow> int \<Rightarrow> event list \<Rightarrow> (event list \<times> (error + load_state)) option" where
  "load_tags h l pageSize ev =
     (let first = tags_list h l pageSize 0;
          ev1 = ev @ [CallTagsList l pageSize 0 first]
      in case first of
           None \<Rightarrow> Some (ev1, Inl (HostCallRejected ''tags.list''))
         | Some r \<Rightarrow> load_pages h l pageSize (resp_total r) (0 + pageSize) (ingest (resp_items r) empty_state) ev1)"

text \<open>
  The \<open>for (const m of toApply)\<close> loop of the applier, with \<open>n = toApply.length\<close>; it returns
  \<open>applied\<close>.
\<close>

fun apply_merges ::
  "host \<Rightarrow> bool \<Rightarrow> nat \<Rightarrow> (int \<times> int) list \<Rightarrow> nat \<Rightarrow> event list \<Rightarrow> event list \<times> (error + nat)" where
  "apply_merges h deleteSource n [] applied ev = (ev, Inr applied)"
| "apply_merges h deleteSource n ((sourceId, targetId) # ms) applied ev =
     (let ev1 = (if applied mod 50 = 0 then ev @ [ReportProgress (Merging applied n)] else ev)
                  @ [CallTagsMerge sourceId targetId deleteSource]
      in if tags_merge h applied sourceId targetId deleteSource
         then apply_merges h deleteSource n ms (applied + 1) ev1
         else (ev1, Inl (HostCallRejected ''tags.merge'')))"

text \<open>
  \<open>runPlugin\<close>.  The result is \<open>None\<close> when the run does not return, otherwise the events
  of the run and either \<open>Inr ()\<close> for a normal return or \<open>Inl\<close> for a throw.
\<close>

definition runPlugin :: "host \<Rightarrow> params \<Rightarrow> (event list \<times> (error + unit)) option" where
  "runPlugin h p =
     (let l = lang_of p;
          pageSize = pageSize_of p;
          dryRun = dryRun_of p;
          deleteSource = deleteSource_of p;
          maxMerges = maxMerges_of p
      in case load_tags h l pageSize [LogInfo ''tag_merge started''] of
           None \<Rightarrow> None
         | Some (ev1, Inl e) \<Rightarrow> Some (ev1, Inl e)
         | Some (ev1, Inr s) \<Rightarrow>
             (case merge_plan s of
                None \<Rightarrow> None
              | Some merges \<Rightarrow>
                  let ev2 = ev1 @ [ReportProgress (Building (length (tags s))),
                                   LogInfo ''merge plan built'',
                                   EmitMergePlan (take 200 merges) (length merges)]
                  in if dryRun then
                       Some (ev2 @ [OutputResult \<lparr>res_dry_run = True,
                                                  res_total_tags = length (tags s),
                                                  res_planned_merges = length merges,
                                                  res_applied_merges = None\<rparr>], Inr ())
                     else
                       let toApply = (if maxMerges > 0 then take (nat maxMerges) merges else merges)
                       in (case apply_merges h deleteSource (length toApply) toApply 0 ev2 of
                             (ev3, Inl e) \<Rightarrow> Some (ev3, Inl e)
                           | (ev3, Inr applied) \<Rightarrow>
                               Some (ev3 @ [OutputResult \<lparr>res_dry_run = False,
                                                          res_total_tags = length (tags s),
                                                          res_planned_merges = length merges,
                                                          res_applied_merges = Some applied\<rparr>], Inr ()))))"

subsection \<open>The loader's normalisation, as the specification words it\<close>

text \<open>
  A record with a missing or invalid id is skipped; of any other record the text fields
  are coerced to strings and trimmed.
\<close>

definition normalized :: "TagListItem \<Rightarrow> Tag option" where
  "normalized it =
     (case item_id it of
        Num i \<Rightarrow>
          if 0 < i then
            Some \<lparr>tag_id = i,
                  tag_namespace = trim (item_namespace it),
                  tag_name = trim (item_name it),
                  tag_translation_text =
                    trim (case item_translation_text it of None \<Rightarrow> '''' | Some x \<Rightarrow> x)\<rparr>
          else None
      | _ \<Rightarrow> None)"

subsection \<open>Predicates used to state the properties\<close>

text \<open>\<open>follows stt c xs\<close>: the ids \<open>xs\<close> are met one after the other when the edges of \<open>stt\<close> are
  walked from \<open>c\<close>.\<close>

fun follows :: "(int \<times> int) list \<Rightarrow> int \<Rightarrow> int list \<Rightarrow> bool" where
  "follows stt c [] = True"
| "follows stt c (x # xs) = (map_of stt c = Some x \<and> follows stt x xs)"

text \<open>\<open>stops_at stt r visited\<close>: at \<open>r\<close> the walk cannot go on, because \<open>r\<close> has no outgoing
  edge (or the falsy target \<open>0\<close>), or because its target is among the ids already visited.\<close>

definition stops_at :: "(int \<times> int) list \<Rightarrow> int \<Rightarrow> int set \<Rightarrow> bool" where
  "stops_at stt r visited =
     (case map_of stt r of None \<Rightarrow> True | Some n \<Rightarrow> n = 0 \<or> n \<in> visited)"

text \<open>\<open>has_candidate cc k i\<close>: the candidate set of key \<open>k\<close> holds the id \<open>i\<close>.\<close>

definition has_candidate :: "(string \<times> int list) list \<Rightarrow> string \<Rightarrow> int \<Rightarrow> bool" where
  "has_candidate cc k i = (case map_of cc k of None \<Rightarrow> False | Some vs \<Rightarrow> i \<in> set vs)"

text \<open>\<open>settled ti k i\<close>: the entry of key \<open>k\<close> is the id \<open>i\<close> or the sentinel \<open>0\<close>.\<close>

definition settled :: "(string \<times> int) list \<Rightarrow> string \<Rightarrow> int \<Rightarrow> bool" where
  "settled ti k i = (map_of ti k = Some i \<or> map_of ti k = Some 0)"

text \<open>\<open>indexed ti cc t\<close>: the two indexes hold everything that ingesting the tag \<open>t\<close> puts
  into them.\<close>

definition indexed :: "(string \<times> int) list \<Rightarrow> (string \<times> int list) list \<Rightarrow> Tag \<Rightarrow> bool" where
  "indexed ti cc t =
     (isOtherLike (tag_namespace t) \<or>
      (norm (tag_name t) = [] \<or> has_candidate cc (norm (tag_name t)) (tag_id t)) \<and>
      (norm (tag_translation_text t) = [] \<or>
       has_candidate cc (norm (tag_translation_text t)) (tag_id t) \<and>
       settled ti (nsKey (tag_namespace t) (norm (tag_translation_text t))) (tag_id t)))"

text \<open>\<open>categorised ts i\<close>: \<open>i\<close> is the id of a tag of \<open>ts\<close> whose namespace is not otherlike.\<close>

definition categorised :: "Tag list \<Rightarrow> int \<Rightarrow> bool" where
  "categorised ts i = (\<exists>t \<in> set ts. tag_id t = i \<and> \<not> isOtherLike (tag_namespace t))"

text \<open>
  What holds of the four collections throughout loading: the targets held by the two
  indexes are ids of loaded tags that are not otherlike, and \<open>idToNs\<close> holds, for exactly
  the loaded ids, the namespace of a loaded tag of that id.
\<close>

definition loaded_inv :: "load_state \<Rightarrow> bool" where
  "loaded_inv s =
     ((\<forall>k v. map_of (translationIndex s) k = Some v \<longrightarrow> v = 0 \<or> categorised (tags s) v) \<and>
      (\<forall>k vs v. map_of (canonicalCandidates s) k = Some vs \<longrightarrow> v \<in> set vs \<longrightarrow>
         categorised (tags s) v) \<and>
      (\<forall>i ns. map_of (idToNs s) i = Some ns \<longrightarrow>
         (\<exists>t \<in> set (tags s). tag_id t = i \<and> tag_namespace t = ns)) \<and>
      (\<forall>t \<in> set (tags s). map_of (idToNs s) (tag_id t) \<noteq> None))"

text \<open>The records of all pages that the host delivered during a run, in order.\<close>

definition listed_items :: "event list \<Rightarrow> TagListItem list" where
  "listed_items ev =
     concat (map (\<lambda>e. case e of CallTagsList l lim off (Some r) \<Rightarrow> resp_items r | _ \<Rightarrow> []) ev)"

text \<open>The calls to \<open>tags.merge\<close> made during a run, in order.\<close>

definition merge_calls :: "event list \<Rightarrow> (int \<times> int \<times> bool) list" where
  "merge_calls ev =
     concat (map (\<lambda>e. case e of CallTagsMerge a b d \<Rightarrow> [(a, b, d)] | _ \<Rightarrow> []) ev)"

text \<open>The ids that pass the loader's check, in order.\<close>

definition retained_ids :: "TagListItem list \<Rightarrow> int list" where
  "retained_ids its =
     concat (map (\<lambda>it. case item_id it of Num i \<Rightarrow> if 0 < i then [i] else [] | _ \<Rightarrow> []) its)"

subsection \<open>Example catalogs and hosts\<close>

definition item :: "int \<Rightarrow> string \<Rightarrow> string \<Rightarrow> string option \<Rightarrow> TagListItem" where
  "item i ns n t = \<lparr>item_id = Num i, item_namespace = ns, item_name = n, item_translation_text = t\<rparr>"

text \<open>An uncategorised tag and a translated tag that both fold into tag 2.\<close>

definition absorb_catalog :: "TagListItem list" where
  "absorb_catalog =
     [item 5 ''other'' ''Foo'' None,
      item 2 ''artist'' ''Foo'' (Some ''Bar''),
      item 1 ''artist'' '' bar '' None]"

text \<open>Three tags, each named as the next one is translated.\<close>

definition cycle_catalog :: "TagListItem list" where
  "cycle_catalog =
     [item 1 ''artist'' ''a'' (Some ''b''),
      item 2 ''artist'' ''b'' (Some ''c''),
      item 3 ''artist'' ''c'' (Some ''a'')]"

text \<open>Two artists translated alike, and a third artist named like that translation.\<close>

definition ambiguous_catalog :: "TagListItem list" where
  "ambiguous_catalog =
     [item 1 ''artist'' ''x'' (Some ''Dup''),
      item 2 ''artist'' ''y'' (Some '' dup''),
      item 3 ''artist'' ''DUP'' None]"

text \<open>A host that accepts every merge and lists the given pages by offset.\<close>

definition host_of :: "(int \<Rightarrow> TagsListResponse option) \<Rightarrow> host" where
  "host_of pages = \<lparr>tags_list = (\<lambda>l lim off. pages off), tags_merge = (\<lambda>n a b d. True)\<rparr>"

text \<open>The catalog \<open>absorb_catalog\<close> on one page.\<close>

definition absorb_host :: host where
  "absorb_host =
     host_of (\<lambda>off. if off = 0 then Some \<lparr>resp_total = 3, resp_items = absorb_catalog\<rparr> else None)"

text \<open>All parameters missing: the defaults apply.\<close>

definition default_params :: params where
  "default_params =
     \<lparr>lang = None, page_size = None, dry_run = None, delete_source = None, max_merges = None\<rparr>"

text \<open>
  A host with two tags, listed with page size 1, on which the tag at offset 0 has moved
  to offset 1 by the time the second page is asked for.
\<close>

definition shifting_host :: host where
  "shifting_host =
     host_of (\<lambda>off. Some \<lparr>resp_total = 2, resp_items = [item 1 ''artist'' ''a'' None]\<rparr>)"

text \<open>A page with malformed records among two good ones.\<close>

definition malformed_host :: host where
  "malformed_host =
     host_of (\<lambda>off. Some \<lparr>resp_total = 5, resp_items =
        [item 4 ''artist'' ''a'' None,
         \<lparr>item_id = NaN, item_namespace = ''artist'', item_name = ''b'', item_translation_text = None\<rparr>,
         item 0 ''artist'' ''c'' None,
         item (- 3) ''artist'' ''d'' None,
         item 9 '''' '' e '' None]\<rparr>)"

section \<open>Chain resolution\<close>

lemma follows_values: "follows stt c xs \<Longrightarrow> set xs \<subseteq> snd ` set stt"
proof (induction xs arbitrary: c)
  case Nil
  then show ?case by simp
next
  case (Cons x xs)
  then have "(c, x) \<in> set stt" by (simp add: map_of_SomeD)
  then have "x \<in> snd ` set stt" by force
  moreover from Cons.prems have "follows stt x xs" by simp
  then have "set xs \<subseteq> snd ` set stt" by (rule Cons.IH)
  ultimately show ?case by simp
qed

text \<open>
  Every pass through the loop adds to \<open>seen\<close> a target of \<open>stt\<close> that was not in it, so
  the targets not yet seen get fewer: the loop returns.  What it returns is the end of
  the walk it made.
\<close>

lemma resolve_loop_walk:
  "\<exists>r xs. resolve_loop stt cur seen = Some r \<and> follows stt cur xs \<and> distinct xs \<and>
          set xs \<inter> seen = {} \<and> 0 \<notin> set xs \<and> r = last (cur # xs) \<and>
          stops_at stt r (seen \<union> set xs)"
proof (induction "card (snd ` set stt - seen)" arbitrary: cur seen rule: less_induct)
  case less
  show ?case
  proof (cases "map_of stt cur")
    case None
    then have "resolve_loop stt cur seen = Some cur"
      by (subst resolve_loop.simps) simp
    moreover from None have "stops_at stt cur (seen \<union> set [])"
      by (simp add: stops_at_def)
    ultimately show ?thesis
      by (intro exI [of _ cur] exI [of _ "[]"]) simp
  next
    case (Some nxt)
    show ?thesis
    proof (cases "nxt = 0 \<or> nxt \<in> seen")
      case True
      with Some have "resolve_loop stt cur seen = Some cur"
        by (subst resolve_loop.simps) auto
      moreover from Some True have "stops_at stt cur (seen \<union> set [])"
        by (auto simp add: stops_at_def)
      ultimately show ?thesis
        by (intro exI [of _ cur] exI [of _ "[]"]) simp
    next
      case False
      from Some have "(cur, nxt) \<in> set stt" by (rule map_of_SomeD)
      then have "nxt \<in> snd ` set stt" by force
      with False have "card (snd ` set stt - insert nxt seen) < card (snd ` set stt - seen)"
        by (intro psubset_card_mono) auto
      from less [OF this, of nxt] obtain r xs where
        r: "resolve_loop stt nxt (insert nxt seen) = Some r" and
        f: "follows stt nxt xs" and d: "distinct xs" and
        i: "set xs \<inter> insert nxt seen = {}" and z: "0 \<notin> set xs" and
        l: "r = last (nxt # xs)" and s: "stops_at stt r (insert nxt seen \<union> set xs)"
        by blast
      from Some False r have "resolve_loop stt cur seen = Some r"
        by (subst resolve_loop.simps) simp
      moreover from Some f have "follows stt cur (nxt # xs)" by simp
      moreover from d i have "distinct (nxt # xs)" by auto
      moreover from i False have "set (nxt # xs) \<inter> seen = {}" by auto
      moreover from z False have "0 \<notin> set (nxt # xs)" by auto
      moreover from l have "r = last (cur # nxt # xs)" by simp
      moreover from s have "stops_at stt r (seen \<union> set (nxt # xs))" by simp
      ultimately show ?thesis by blast
    qed
  qed
qed

lemma resolve_returns: "\<exists>r. resolve stt i = Some r"
  using resolve_loop_walk [of stt i "{}"] by (auto simp add: resolve_def)

lemma resolve_result:
  assumes "resolve stt i = Some r"
  shows "r = i \<or> r \<in> snd ` set stt"
proof -
  from resolve_loop_walk [of stt i "{}"] assms obtain xs where
    f: "follows stt i xs" and l: "r = last (i # xs)" by (auto simp add: resolve_def)
  show ?thesis
  proof (cases xs)
    case Nil
    with l show ?thesis by simp
  next
    case (Cons y ys)
    with l have "r \<in> set xs" by (metis last_ConsR last_in_set list.distinct(1))
    with follows_values [OF f] show ?thesis by blast
  qed
qed

text \<open>
  Claim C7.  Chain resolution returns for every edge map and every starting id: \<open>resolve\<close>
  is never \<open>None\<close>.  The id \<open>r\<close> it returns is the last of the ids \<open>xs\<close> it visited by
  following outgoing edges from the start (the start itself when it visited none); the
  visited ids are pairwise different and none is \<open>0\<close>; and at \<open>r\<close> the walk stopped because
  \<open>r\<close> has no outgoing edge or because the target of \<open>r\<close> had been visited before.
\<close>

theorem resolve_terminates:
  "\<exists>r xs. resolve stt i = Some r \<and> follows stt i xs \<and> distinct xs \<and> 0 \<notin> set xs \<and>
          r = last (i # xs) \<and> stops_at stt r (set xs)"
  using resolve_loop_walk [of stt i "{}"] by (simp add: resolve_def)

section \<open>The index builder\<close>

lemma ingest_item_skip: "normalized it = None \<Longrightarrow> ingest_item it s = s"
  by (auto simp add: normalized_def ingest_item_def split: js_number.splits if_splits)

lemma ingest_item_tags:
  "normalized it = Some t \<Longrightarrow> tags (ingest_item it s) = tags s @ [t]"
  by (auto simp add: normalized_def ingest_item_def Let_def split: js_number.splits if_splits)

lemma ingest_item_idToNs:
  "normalized it = Some t \<Longrightarrow>
   idToNs (ingest_item it s) = AList.update (tag_id t) (tag_namespace t) (idToNs s)"
  by (auto simp add: normalized_def ingest_item_def Let_def split: js_number.splits if_splits)

lemma ingest_item_translationIndex:
  "normalized it = Some t \<Longrightarrow>
   translationIndex (ingest_item it s) =
     (if \<not> isOtherLike (tag_namespace t) \<and> norm (tag_translation_text t) \<noteq> [] then
        note_translation (nsKey (tag_namespace t) (norm (tag_translation_text t))) (tag_id t)
          (translationIndex s)
      else translationIndex s)"
  by (auto simp add: normalized_def ingest_item_def Let_def split: js_number.splits if_splits)

lemma ingest_item_canonicalCandidates:
  "normalized it = Some t \<Longrightarrow>
   canonicalCandidates (ingest_item it s) =
     (if isOtherLike (tag_namespace t) then canonicalCandidates s
      else
        (if norm (tag_translation_text t) \<noteq> [] then
           add_candidate (norm (tag_translation_text t)) (tag_id t)
         else (\<lambda>cc. cc))
          ((if norm (tag_name t) \<noteq> [] then add_candidate (norm (tag_name t)) (tag_id t)
            else (\<lambda>cc. cc))
             (canonicalCandidates s)))"
  by (auto simp add: normalized_def ingest_item_def Let_def split: js_number.splits if_splits)

lemma normalized_pos: "normalized it = Some t \<Longrightarrow> 0 < tag_id t"
  by (auto simp add: normalized_def split: js_number.splits if_splits)

lemma ingest_Nil: "ingest [] s = s"
  by (simp add: ingest_def)

lemma ingest_Cons: "ingest (it # its) s = ingest its (ingest_item it s)"
  by (simp add: ingest_def)

lemma ingest_append: "ingest (xs @ ys) s = ingest ys (ingest xs s)"
  by (simp add: ingest_def)

lemma ingest_tags: "tags (ingest its s) = tags s @ List.map_filter normalized its"
proof (induction its arbitrary: s)
  case Nil
  then show ?case by (simp add: ingest_Nil map_filter_simps)
next
  case (Cons it its)
  show ?case
  proof (cases "normalized it")
    case None
    with Cons show ?thesis by (simp add: ingest_Cons ingest_item_skip map_filter_simps)
  next
    case (Some t)
    with Cons show ?thesis by (simp add: ingest_Cons ingest_item_tags map_filter_simps)
  qed
qed

subsection \<open>Ingesting a tag again changes neither index\<close>

lemma add_candidate_has: "has_candidate (add_candidate k i cc) k i"
  by (simp add: has_candidate_def add_candidate_def update_conv' set_add_def split: option.splits)

lemma add_candidate_keeps:
  "has_candidate cc k i \<Longrightarrow> has_candidate (add_candidate k' i' cc) k i"
  by (auto simp add: has_candidate_def add_candidate_def update_conv' set_add_def
      split: option.splits)

lemma add_candidate_idem: "has_candidate cc k i \<Longrightarrow> add_candidate k i cc = cc"
  by (auto simp add: has_candidate_def add_candidate_def set_add_def update_triv
      split: option.splits)

lemma note_translation_settles: "settled (note_translation k i ti) k i"
  by (simp add: settled_def note_translation_def update_conv' split: option.splits)

lemma note_translation_keeps:
  "settled ti k i \<Longrightarrow> settled (note_translation k' i' ti) k i"
  by (auto simp add: settled_def note_translation_def update_conv' split: option.splits)

lemma note_translation_idem: "settled ti k i \<Longrightarrow> note_translation k i ti = ti"
  by (auto simp add: settled_def note_translation_def update_triv split: option.splits)

lemma ingest_item_indexes:
  assumes "normalized it = Some t"
  shows "indexed (translationIndex (ingest_item it s)) (canonicalCandidates (ingest_item it s)) t"
  unfolding indexed_def ingest_item_translationIndex [OF assms]
    ingest_item_canonicalCandidates [OF assms]
  by (simp add: add_candidate_has add_candidate_keeps note_translation_settles)

lemma ingest_item_keeps_indexed:
  assumes "indexed (translationIndex s) (canonicalCandidates s) t"
  shows "indexed (translationIndex (ingest_item it s)) (canonicalCandidates (ingest_item it s)) t"
proof (cases "normalized it")
  case None
  with assms show ?thesis by (simp add: ingest_item_skip)
next
  case (Some u)
  from assms show ?thesis
    unfolding indexed_def ingest_item_translationIndex [OF Some]
      ingest_item_canonicalCandidates [OF Some]
    by (auto simp add: add_candidate_keeps note_translation_keeps)
qed

lemma ingest_keeps_indexed:
  "indexed (translationIndex s) (canonicalCandidates s) t \<Longrightarrow>
   indexed (translationIndex (ingest its s)) (canonicalCandidates (ingest its s)) t"
  by (induction its arbitrary: s) (simp_all add: ingest_Nil ingest_Cons ingest_item_keeps_indexed)

lemma ingest_indexes:
  "it \<in> set its \<Longrightarrow> normalized it = Some t \<Longrightarrow>
   indexed (translationIndex (ingest its s)) (canonicalCandidates (ingest its s)) t"
proof (induction its arbitrary: s)
  case Nil
  then show ?case by simp
next
  case (Cons x its)
  show ?case
  proof (cases "it = x")
    case True
    with Cons.prems(2) show ?thesis
      by (simp add: ingest_Cons ingest_keeps_indexed ingest_item_indexes)
  next
    case False
    with Cons show ?thesis by (simp add: ingest_Cons)
  qed
qed

lemma ingest_item_idem:
  assumes "normalized it = Some t" and "indexed (translationIndex s) (canonicalCandidates s) t"
  shows "translationIndex (ingest_item it s) = translationIndex s \<and>
         canonicalCandidates (ingest_item it s) = canonicalCandidates s"
  using assms(2)
  unfolding indexed_def ingest_item_translationIndex [OF assms(1)]
    ingest_item_canonicalCandidates [OF assms(1)]
  by (auto simp add: add_candidate_idem note_translation_idem)

lemma ingest_idem:
  assumes "\<And>it t. it \<in> set its \<Longrightarrow> normalized it = Some t \<Longrightarrow>
             indexed (translationIndex s) (canonicalCandidates s) t"
  shows "translationIndex (ingest its s) = translationIndex s \<and>
         canonicalCandidates (ingest its s) = canonicalCandidates s"
  using assms
proof (induction its arbitrary: s)
  case Nil
  then show ?case by (simp add: ingest_Nil)
next
  case (Cons x its)
  have same: "translationIndex (ingest_item x s) = translationIndex s \<and>
              canonicalCandidates (ingest_item x s) = canonicalCandidates s"
  proof (cases "normalized x")
    case None
    then show ?thesis by (simp add: ingest_item_skip)
  next
    case (Some u)
    with Cons.prems [of x u] show ?thesis by (simp add: ingest_item_idem)
  qed
  have "translationIndex (ingest its (ingest_item x s)) = translationIndex (ingest_item x s) \<and>
        canonicalCandidates (ingest its (ingest_item x s)) = canonicalCandidates (ingest_item x s)"
  proof (rule Cons.IH)
    fix it t
    assume "it \<in> set its" and "normalized it = Some t"
    with Cons.prems [of it t] same
    show "indexed (translationIndex (ingest_item x s)) (canonicalCandidates (ingest_item x s)) t"
      by simp
  qed
  with same show ?case by (simp add: ingest_Cons)
qed

text \<open>
  Claim C9.  Indexing is idempotent: when \<open>ingest\<close> has run over a tag list, from any
  state \<open>s\<close> of the collections, running it over the same list again leaves the
  Translation Index and the Canonical Candidate Index as they are, entry for entry and in
  the same order.
\<close>

theorem ingest_idempotent:
  "translationIndex (ingest its (ingest its s)) = translationIndex (ingest its s) \<and>
   canonicalCandidates (ingest its (ingest its s)) = canonicalCandidates (ingest its s)"
  by (rule ingest_idem) (rule ingest_indexes)

subsection \<open>Ambiguous translation keys\<close>


lemma note_translation_poisoned:
  "map_of ti k = Some 0 \<Longrightarrow> map_of (note_translation k' i ti) k = Some 0"
  by (auto simp add: note_translation_def update_conv' split: option.splits)

lemma ingest_item_poisoned:
  assumes "map_of (translationIndex s) k = Some 0"
  shows "map_of (translationIndex (ingest_item it s)) k = Some 0"
proof (cases "normalized it")
  case None
  with assms show ?thesis by (simp add: ingest_item_skip)
next
  case (Some t)
  with assms show ?thesis
    by (simp add: ingest_item_translationIndex note_translation_poisoned)
qed

lemma ingest_poisoned:
  "map_of (translationIndex s) k = Some 0 \<Longrightarrow> map_of (translationIndex (ingest its s)) k = Some 0"
  by (induction its arbitrary: s) (simp_all add: ingest_Nil ingest_Cons ingest_item_poisoned)

lemma ingest_item_settles:
  assumes "normalized it = Some t" and "\<not> isOtherLike (tag_namespace t)"
    and "norm (tag_translation_text t) \<noteq> []"
  shows "settled (translationIndex (ingest_item it s))
           (nsKey (tag_namespace t) (norm (tag_translation_text t))) (tag_id t)"
  using assms by (simp add: ingest_item_translationIndex note_translation_settles)

lemma ingest_item_keeps_settled:
  assumes "settled (translationIndex s) k i"
  shows "settled (translationIndex (ingest_item it s)) k i"
proof (cases "normalized it")
  case None
  with assms show ?thesis by (simp add: ingest_item_skip)
next
  case (Some t)
  with assms show ?thesis
    by (simp add: ingest_item_translationIndex note_translation_keeps)
qed

lemma ingest_keeps_settled:
  "settled (translationIndex s) k i \<Longrightarrow> settled (translationIndex (ingest its s)) k i"
  by (induction its arbitrary: s) (simp_all add: ingest_Nil ingest_Cons ingest_item_keeps_settled)

lemma note_translation_clash:
  "settled ti k i \<Longrightarrow> j \<noteq> i \<Longrightarrow> j \<noteq> 0 \<Longrightarrow> map_of (note_translation k j ti) k = Some 0"
  by (auto simp add: settled_def note_translation_def update_conv' split: option.splits)

lemma ingest_item_clash:
  assumes "settled (translationIndex s) (nsKey (tag_namespace t) (norm (tag_translation_text t))) i"
    and "normalized it = Some t" and "\<not> isOtherLike (tag_namespace t)"
    and "norm (tag_translation_text t) \<noteq> []" and "tag_id t \<noteq> i"
  shows "map_of (translationIndex (ingest_item it s))
           (nsKey (tag_namespace t) (norm (tag_translation_text t))) = Some 0"
  using assms normalized_pos [OF assms(2)]
  by (simp add: ingest_item_translationIndex note_translation_clash)

lemma ingest_settles:
  assumes "it \<in> set its" and "normalized it = Some t" and "\<not> isOtherLike (tag_namespace t)"
    and "norm (tag_translation_text t) \<noteq> []"
  shows "settled (translationIndex (ingest its s))
           (nsKey (tag_namespace t) (norm (tag_translation_text t))) (tag_id t)"
  using assms(1)
proof (induction its rule: rev_induct)
  case Nil
  then show ?case by simp
next
  case (snoc x its)
  show ?case
  proof (cases "it = x")
    case True
    with assms(2-4) show ?thesis by (simp add: ingest_append ingest_Cons ingest_Nil ingest_item_settles)
  next
    case False
    with snoc show ?thesis by (simp add: ingest_append ingest_Cons ingest_Nil ingest_item_keeps_settled)
  qed
qed

lemma ingest_ambiguous:
  assumes a: "a \<in> set its" "normalized a = Some ta"
    and b: "b \<in> set its" "normalized b = Some tb"
    and ns: "tag_namespace ta = ns" "tag_namespace tb = ns" "\<not> isOtherLike ns"
    and key: "norm (tag_translation_text ta) = key" "norm (tag_translation_text tb) = key" "key \<noteq> []"
    and ids: "tag_id ta \<noteq> tag_id tb"
  shows "map_of (translationIndex (ingest its s)) (nsKey ns key) = Some 0"
  using a(1) b(1)
proof (induction its rule: rev_induct)
  case Nil
  then show ?case by simp
next
  case (snoc x its)
  from ids a(2) b(2) have ab: "a \<noteq> b" by auto
  have step: "ingest (its @ [x]) s = ingest_item x (ingest its s)"
    by (simp add: ingest_append ingest_Cons ingest_Nil)
  show ?case
  proof (cases "a \<in> set its \<and> b \<in> set its")
    case True
    with snoc.IH show ?thesis by (simp add: step ingest_item_poisoned)
  next
    case False
    with snoc.prems ab consider "x = a" "b \<in> set its" | "x = b" "a \<in> set its" by auto
    then show ?thesis
    proof cases
      case 1
      from ingest_settles [OF 1(2) b(2), of s] ns key
      have "settled (translationIndex (ingest its s)) (nsKey ns key) (tag_id tb)" by simp
      with ingest_item_clash [of "ingest its s" ta "tag_id tb" a] a(2) ns key ids
      have "map_of (translationIndex (ingest_item a (ingest its s))) (nsKey ns key) = Some 0"
        by simp
      with 1(1) show ?thesis unfolding step by simp
    next
      case 2
      from ingest_settles [OF 2(2) a(2), of s] ns key
      have "settled (translationIndex (ingest its s)) (nsKey ns key) (tag_id ta)" by simp
      with ingest_item_clash [of "ingest its s" tb "tag_id ta" b] b(2) ns key ids
      have "map_of (translationIndex (ingest_item b (ingest its s))) (nsKey ns key) = Some 0"
        by simp
      with 2(1) show ?thesis unfolding step by simp
    qed
  qed
qed

lemma propose_ambiguous:
  assumes "map_of (translationIndex s) (nsKey (trim (tag_namespace t)) (norm (tag_name t))) = Some 0"
    and "\<not> isOtherLike (trim (tag_namespace t))"
  shows "propose s t stt = stt"
  using assms by (simp add: propose_def Let_def)

text \<open>
  Claim C3.  Let two records of the loaded list have different (finite, positive) ids, the
  same namespace \<open>ns\<close>, not otherlike, and the same non-empty normalised translation text
  \<open>key\<close>.  Then, wherever the two stand in the list and whatever the collections held
  before, the Translation Index entry of \<open>(ns, key)\<close> is the sentinel \<open>0\<close> when the list
  has been ingested, it still is \<open>0\<close> after any further records \<open>rest\<close>, and the planner's
  step for a tag of namespace \<open>ns\<close> whose normalised name is \<open>key\<close> adds no edge.
\<close>

theorem ambiguity_poisons:
  assumes "a \<in> set its" and "normalized a = Some ta"
    and "b \<in> set its" and "normalized b = Some tb"
    and "tag_id ta \<noteq> tag_id tb"
    and "tag_namespace ta = ns" and "tag_namespace tb = ns" and "\<not> isOtherLike ns"
    and "norm (tag_translation_text ta) = key" and "norm (tag_translation_text tb) = key"
    and "key \<noteq> []"
  shows "map_of (translationIndex (ingest its s)) (nsKey ns key) = Some 0 \<and>
         map_of (translationIndex (ingest rest (ingest its s))) (nsKey ns key) = Some 0 \<and>
         (\<forall>t stt. trim (tag_namespace t) = ns \<and> norm (tag_name t) = key \<longrightarrow>
            propose (ingest rest (ingest its s)) t stt = stt)"
proof -
  have p: "map_of (translationIndex (ingest its s)) (nsKey ns key) = Some 0"
    using assms by (intro ingest_ambiguous [of a its ta b tb]) simp_all
  then have q: "map_of (translationIndex (ingest rest (ingest its s))) (nsKey ns key) = Some 0"
    by (rule ingest_poisoned)
  with assms(8) have "\<forall>t stt. trim (tag_namespace t) = ns \<and> norm (tag_name t) = key \<longrightarrow>
      propose (ingest rest (ingest its s)) t stt = stt"
    by (auto intro: propose_ambiguous)
  with p q show ?thesis by blast
qed

theorem ambiguity_poisons_witness:
  "map_of (translationIndex (ingest ambiguous_catalog empty_state)) (nsKey ''artist'' ''dup'') = Some 0 \<and>
   propose (ingest ambiguous_catalog empty_state)
     \<lparr>tag_id = 3, tag_namespace = ''artist'', tag_name = ''DUP'', tag_translation_text = ''''\<rparr> [] = []"
proof -
  let ?a = "item 1 ''artist'' ''x'' (Some ''Dup'')"
  let ?b = "item 2 ''artist'' ''y'' (Some '' dup'')"
  let ?ta = "\<lparr>tag_id = 1, tag_namespace = ''artist'', tag_name = ''x'', tag_translation_text = ''Dup''\<rparr>"
  let ?tb = "\<lparr>tag_id = 2, tag_namespace = ''artist'', tag_name = ''y'', tag_translation_text = ''dup''\<rparr>"
  have a: "?a \<in> set ambiguous_catalog" and b: "?b \<in> set ambiguous_catalog"
    by (simp_all add: ambiguous_catalog_def)
  have na: "normalized ?a = Some ?ta" and nb: "normalized ?b = Some ?tb"
    by code_simp+
  have ids: "tag_id ?ta \<noteq> tag_id ?tb" by simp
  have ns: "tag_namespace ?ta = ''artist''" "tag_namespace ?tb = ''artist''"
    "\<not> isOtherLike ''artist''" by (simp_all add: isOtherLike_def)
  have key: "norm (tag_translation_text ?ta) = ''dup''" "norm (tag_translation_text ?tb) = ''dup''"
    "''dup'' \<noteq> []" by code_simp+
  have t: "trim ''artist'' = ''artist''" "norm ''DUP'' = ''dup''" by code_simp+
  from ambiguity_poisons [OF a na b nb ids ns key, of empty_state "[]"] t
  show ?thesis by (simp add: ingest_Nil)
qed

section \<open>The merge plan\<close>

lemma propose_cases:
  "propose s it stt = stt \<or>
   (\<exists>t. t \<noteq> 0 \<and> t \<noteq> tag_id it \<and> propose s it stt = AList.update (tag_id it) t stt)"
  by (auto simp add: propose_def Let_def split: option.splits list.splits)

lemma distinct_propose:
  "distinct (map fst stt) \<Longrightarrow> distinct (map fst (propose s it stt))"
  using propose_cases [of s it stt] by (auto simp add: distinct_update)

lemma distinct_fold_propose:
  "distinct (map fst stt) \<Longrightarrow> distinct (map fst (fold (propose s) ts stt))"
  by (induction ts arbitrary: stt) (simp_all add: distinct_propose)

text \<open>A \<open>Map\<close> has one entry for a key: every source id has at most one outgoing edge.\<close>

lemma distinct_sourceToTarget: "distinct (map fst (sourceToTarget s))"
  by (simp add: sourceToTarget_def distinct_fold_propose)

lemma collect_merges_returns: "\<exists>ms. collect_merges s stt es = Some ms"
proof (induction es)
  case Nil
  then show ?case by simp
next
  case (Cons e es)
  obtain a t where e: "e = (a, t)" by (cases e)
  from resolve_returns [of stt t] obtain r where "resolve stt t = Some r" ..
  with Cons e show ?case by auto
qed

text \<open>What the filter lets through.\<close>

lemma collect_merges_entry:
  assumes "collect_merges s stt es = Some ms" and "(a, b) \<in> set ms"
  shows "b \<noteq> a \<and> \<not> (isOtherLike (nsOf s a) \<and> isOtherLike (nsOf s b)) \<and>
         (\<exists>t. (a, t) \<in> set es \<and> resolve stt t = Some b)"
  using assms
proof (induction es arbitrary: ms)
  case Nil
  then show ?case by simp
next
  case (Cons e es)
  obtain c t where e: "e = (c, t)" by (cases e)
  from Cons.prems(1) e obtain r ms' where
    r: "resolve stt t = Some r" and ms': "collect_merges s stt es = Some ms'" and
    ms: "ms = (if r = c then ms'
               else if isOtherLike (nsOf s c) \<and> isOtherLike (nsOf s r) then ms'
               else (c, r) # ms')"
    by (auto split: option.splits if_splits)
  show ?case
  proof (cases "(a, b) \<in> set ms'")
    case True
    from Cons.IH [OF ms' True] e show ?thesis by auto
  next
    case False
    with ms Cons.prems(2) have "ms = (c, r) # ms'" and "a = c" and "b = r"
      by (auto split: if_splits)
    with ms r e show ?thesis by (auto split: if_splits)
  qed
qed

lemma collect_merges_sources:
  "collect_merges s stt es = Some ms \<Longrightarrow> set (map fst ms) \<subseteq> set (map fst es)"
  using collect_merges_entry [of s stt es ms] by force

lemma collect_merges_distinct:
  "collect_merges s stt es = Some ms \<Longrightarrow> distinct (map fst es) \<Longrightarrow> distinct (map fst ms)"
proof (induction es arbitrary: ms)
  case Nil
  then show ?case by simp
next
  case (Cons e es)
  obtain c t where e: "e = (c, t)" by (cases e)
  from Cons.prems(1) e obtain r ms' where
    ms': "collect_merges s stt es = Some ms'" and
    ms: "ms = ms' \<or> ms = (c, r) # ms'"
    by (auto split: option.splits if_splits)
  from Cons.prems(2) have d: "distinct (map fst ms')" by (intro Cons.IH [OF ms']) simp
  from collect_merges_sources [OF ms'] Cons.prems(2) e have "c \<notin> set (map fst ms')" by auto
  with d ms show ?case by auto
qed

lemma distinct_map_sort_key: "distinct (map f (sort_key f xs)) = distinct (map f xs)"
  by (simp add: distinct_map)

lemma merge_plan_returns:
  "\<exists>ms. collect_merges s (sourceToTarget s) (sourceToTarget s) = Some ms \<and>
        merge_plan s = Some (sort_key fst ms)"
  using collect_merges_returns [of s "sourceToTarget s" "sourceToTarget s"]
  by (auto simp add: merge_plan_def)

lemma merge_plan_entry:
  assumes "merge_plan s = Some ms" and "(a, b) \<in> set ms"
  shows "b \<noteq> a \<and> \<not> (isOtherLike (nsOf s a) \<and> isOtherLike (nsOf s b)) \<and>
         (\<exists>t. (a, t) \<in> set (sourceToTarget s) \<and> resolve (sourceToTarget s) t = Some b)"
proof -
  from merge_plan_returns [of s] assms(1) obtain ms' where
    c: "collect_merges s (sourceToTarget s) (sourceToTarget s) = Some ms'" and
    p: "ms = sort_key fst ms'" by auto
  from p assms(2) have "(a, b) \<in> set ms'" by simp
  from collect_merges_entry [OF c this] show ?thesis .
qed

lemma absorb_plan: "merge_plan (ingest absorb_catalog empty_state) = Some [(1, 2), (5, 2)]"
  by code_simp

text \<open>
  Claim C4.  For every loaded state the planner returns a plan, and the plan is strictly
  ascending in \<open>sourceId\<close>; in particular no source id occurs in two entries.
\<close>

theorem merge_plan_sorted:
  "\<exists>ms. merge_plan s = Some ms \<and> sorted_wrt (<) (map fst ms) \<and> distinct (map fst ms)"
proof -
  from merge_plan_returns [of s] obtain ms where
    c: "collect_merges s (sourceToTarget s) (sourceToTarget s) = Some ms" and
    p: "merge_plan s = Some (sort_key fst ms)" by blast
  from collect_merges_distinct [OF c distinct_sourceToTarget]
  have d: "distinct (map fst (sort_key fst ms))" by (simp add: distinct_map_sort_key)
  moreover have "sorted (map fst (sort_key fst ms))" by (rule sorted_sort_key)
  ultimately have "sorted_wrt (<) (map fst (sort_key fst ms))"
    by (simp add: strict_sorted_iff)
  with p d show ?thesis by blast
qed

text \<open>The catalog \<open>absorb_catalog\<close> lists its sources as 5, then 1; the plan has 1 before 5.\<close>

theorem merge_plan_sorted_witness:
  "merge_plan (ingest absorb_catalog empty_state) = Some [(1, 2), (5, 2)] \<and>
   sorted_wrt (<) (map fst [(1::int, 2::int), (5, 2)])"
  using merge_plan_sorted [of "ingest absorb_catalog empty_state"] absorb_plan by simp

text \<open>
  Claim C5.  No self-merge: in every entry of the plan the resolved target differs from
  the source.
\<close>

theorem no_self_merge:
  "\<exists>ms. merge_plan s = Some ms \<and> (\<forall>(a, b) \<in> set ms. b \<noteq> a)"
proof -
  from merge_plan_returns [of s] obtain ms where "merge_plan s = Some ms" by blast
  with merge_plan_entry [of s ms] show ?thesis by blast
qed

theorem no_self_merge_witness:
  "merge_plan (ingest absorb_catalog empty_state) = Some [(1, 2), (5, 2)] \<and>
   (2::int) \<noteq> 1 \<and> (2::int) \<noteq> 5"
  using no_self_merge [of "ingest absorb_catalog empty_state"] absorb_plan by simp

text \<open>
  Claim C6.  No otherlike to otherlike merge: for no entry of the plan are the namespace
  of the source id and the namespace of the resolved target id both otherlike.  The
  namespace of an id is the one \<open>idToNs\<close> holds for it, \<open>nsOf\<close>, as in the filter.
\<close>

theorem no_otherlike_to_otherlike:
  "\<exists>ms. merge_plan s = Some ms \<and>
        (\<forall>(a, b) \<in> set ms. \<not> (isOtherLike (nsOf s a) \<and> isOtherLike (nsOf s b)))"
proof -
  from merge_plan_returns [of s] obtain ms where "merge_plan s = Some ms" by blast
  with merge_plan_entry [of s ms] show ?thesis by blast
qed

theorem no_otherlike_to_otherlike_witness:
  "merge_plan (ingest absorb_catalog empty_state) = Some [(1, 2), (5, 2)] \<and>
   isOtherLike (nsOf (ingest absorb_catalog empty_state) 5) \<and>
   \<not> isOtherLike (nsOf (ingest absorb_catalog empty_state) 2)"
proof -
  have "nsOf (ingest absorb_catalog empty_state) 5 = ''other''"
    and "nsOf (ingest absorb_catalog empty_state) 2 = ''artist''"
    by code_simp+
  with no_otherlike_to_otherlike [of "ingest absorb_catalog empty_state"] absorb_plan
  show ?thesis by (simp add: isOtherLike_def)
qed

text \<open>
  Claim C1, the cycle.  The three tags of \<open>cycle_catalog\<close> propose the edges
  \<open>1 \<rightarrow> 3\<close>, \<open>2 \<rightarrow> 1\<close>, \<open>3 \<rightarrow> 2\<close>, a cycle.  Plan resolution returns.  But \<open>resolve\<close> does not
  put the id it starts from into \<open>seen\<close>: started at the target of an edge it walks once
  round the cycle, meets the start as a new id, and stops there.  Each edge so keeps its
  own target, none resolves to its source, and the plan merges 1 into 3, 2 into 1 and
  3 into 2: every tag of the cycle into another tag of the cycle.
\<close>

theorem cycle_plan_merges_within_cycle:
  "sourceToTarget (ingest cycle_catalog empty_state) = [(1, 3), (2, 1), (3, 2)] \<and>
   resolve [(1, 3), (2, 1), (3, 2)] 3 = Some 3 \<and>
   resolve [(1, 3), (2, 1), (3, 2)] 1 = Some 1 \<and>
   resolve [(1, 3), (2, 1), (3, 2)] 2 = Some 2 \<and>
   merge_plan (ingest cycle_catalog empty_state) = Some [(1, 3), (2, 1), (3, 2)]"
  by code_simp


section \<open>Merge targets are categorised tags\<close>


lemma categorised_append: "categorised ts i \<Longrightarrow> categorised (ts @ us) i"
  by (auto simp add: categorised_def)

lemma categorised_last:
  "\<not> isOtherLike (tag_namespace t) \<Longrightarrow> categorised (ts @ [t]) (tag_id t)"
  by (auto simp add: categorised_def)

lemma note_translation_lookup:
  "map_of (note_translation k i ti) k' = Some v \<Longrightarrow> v = 0 \<or> v = i \<or> map_of ti k' = Some v"
  by (auto simp add: note_translation_def update_conv' split: option.splits if_splits)

lemma add_candidate_lookup:
  "map_of (add_candidate k i cc) k' = Some vs \<Longrightarrow> v \<in> set vs \<Longrightarrow>
   v = i \<or> (\<exists>ws. map_of cc k' = Some ws \<and> v \<in> set ws)"
  by (auto simp add: add_candidate_def update_conv' set_add_def split: option.splits if_splits)

lemma loaded_inv_empty: "loaded_inv empty_state"
  by (simp add: loaded_inv_def empty_state_def)

lemma loaded_inv_ingest_item:
  assumes inv: "loaded_inv s"
  shows "loaded_inv (ingest_item it s)"
proof (cases "normalized it")
  case None
  with inv show ?thesis by (simp add: ingest_item_skip)
next
  case (Some t)
  let ?s = "ingest_item it s"
  have tg: "tags ?s = tags s @ [t]" by (rule ingest_item_tags [OF Some])
  from inv have ti: "v = 0 \<or> categorised (tags s) v"
    if "map_of (translationIndex s) k = Some v" for k v
    using that unfolding loaded_inv_def by blast
  from inv have cc: "categorised (tags s) v"
    if "map_of (canonicalCandidates s) k = Some vs" and "v \<in> set vs" for k vs v
    using that unfolding loaded_inv_def by blast
  have 1: "v = 0 \<or> categorised (tags ?s) v" if "map_of (translationIndex ?s) k = Some v" for k v
  proof (cases "\<not> isOtherLike (tag_namespace t) \<and> norm (tag_translation_text t) \<noteq> []")
    case True
    with that have "v = 0 \<or> v = tag_id t \<or> map_of (translationIndex s) k = Some v"
      by (auto simp add: ingest_item_translationIndex [OF Some] dest: note_translation_lookup)
    with True show ?thesis
      unfolding tg by (auto dest: ti intro: categorised_append categorised_last)
  next
    case False
    with that have "map_of (translationIndex s) k = Some v"
      by (auto simp add: ingest_item_translationIndex [OF Some])
    then show ?thesis
      unfolding tg by (auto dest: ti intro: categorised_append)
  qed
  have 2: "categorised (tags ?s) v"
    if "map_of (canonicalCandidates ?s) k = Some vs" and "v \<in> set vs" for k vs v
  proof (cases "isOtherLike (tag_namespace t)")
    case True
    with that have "map_of (canonicalCandidates s) k = Some vs"
      by (simp add: ingest_item_canonicalCandidates [OF Some])
    with that(2) show ?thesis
      unfolding tg by (auto dest: cc intro: categorised_append)
  next
    case False
    from that False have "v = tag_id t \<or> (\<exists>ws. map_of (canonicalCandidates s) k = Some ws \<and> v \<in> set ws)"
      by (auto simp add: ingest_item_canonicalCandidates [OF Some] split: if_splits
          dest!: add_candidate_lookup)
    with False show ?thesis
      unfolding tg by (auto dest: cc intro: categorised_append categorised_last)
  qed
  have 3: "\<exists>u \<in> set (tags ?s). tag_id u = i \<and> tag_namespace u = ns"
    if "map_of (idToNs ?s) i = Some ns" for i ns
    using that inv unfolding tg loaded_inv_def
    by (auto simp add: ingest_item_idToNs [OF Some] update_conv' split: if_splits)
  have 4: "map_of (idToNs ?s) (tag_id u) \<noteq> None" if "u \<in> set (tags ?s)" for u
    using that inv unfolding tg loaded_inv_def
    by (auto simp add: ingest_item_idToNs [OF Some] update_conv')
  from 1 2 3 4 show ?thesis unfolding loaded_inv_def by blast
qed

lemma loaded_inv_ingest: "loaded_inv s \<Longrightarrow> loaded_inv (ingest its s)"
  by (induction its arbitrary: s) (simp_all add: ingest_Nil ingest_Cons loaded_inv_ingest_item)

lemma set_update_subset: "set (AList.update k v al) \<subseteq> insert (k, v) (set al)"
  by (induction al) auto

lemma propose_target:
  assumes "loaded_inv s" and "(a, b) \<in> set (propose s t stt)"
  shows "(a, b) \<in> set stt \<or> categorised (tags s) b"
proof (cases "propose s t stt = stt")
  case True
  with assms(2) show ?thesis by simp
next
  case False
  then obtain c where p: "propose s t stt = AList.update (tag_id t) c stt"
    and c: "c \<noteq> 0"
    and src: "(\<exists>k. map_of (canonicalCandidates s) k = Some [c]) \<or>
              (\<exists>k. map_of (translationIndex s) k = Some c)"
    by (auto simp add: propose_def Let_def split: option.splits list.splits if_splits)
  from src c assms(1) have "categorised (tags s) c"
    unfolding loaded_inv_def by (metis list.set_intros(1))
  moreover from assms(2) p set_update_subset [of "tag_id t" c stt]
  have "(a, b) \<in> set stt \<or> b = c" by auto
  ultimately show ?thesis by auto
qed

lemma fold_propose_target:
  "loaded_inv s \<Longrightarrow> (a, b) \<in> set (fold (propose s) ts stt) \<Longrightarrow>
   (a, b) \<in> set stt \<or> categorised (tags s) b"
proof (induction ts arbitrary: stt)
  case Nil
  then show ?case by simp
next
  case (Cons t ts)
  from Cons.prems have "(a, b) \<in> set (propose s t stt) \<or> categorised (tags s) b"
    by (auto dest: Cons.IH)
  with Cons.prems(1) show ?case by (auto dest: propose_target)
qed

lemma sourceToTarget_target:
  "loaded_inv s \<Longrightarrow> (a, b) \<in> set (sourceToTarget s) \<Longrightarrow> categorised (tags s) b"
  unfolding sourceToTarget_def by (auto dest: fold_propose_target)

lemma merge_plan_target:
  assumes "loaded_inv s" and "merge_plan s = Some ms" and "(a, b) \<in> set ms"
  shows "categorised (tags s) b"
proof -
  from merge_plan_entry [OF assms(2,3)] obtain t where
    t: "(a, t) \<in> set (sourceToTarget s)" and r: "resolve (sourceToTarget s) t = Some b"
    by blast
  from resolve_result [OF r] have "b = t \<or> b \<in> snd ` set (sourceToTarget s)" .
  with t obtain c where "(c, b) \<in> set (sourceToTarget s)" by force
  with assms(1) show ?thesis by (rule sourceToTarget_target)
qed

lemma nsOf_loaded:
  assumes "loaded_inv s" and "distinct (map tag_id (tags s))" and "t \<in> set (tags s)"
  shows "nsOf s (tag_id t) = tag_namespace t"
proof -
  from assms(1,3) obtain ns where ns: "map_of (idToNs s) (tag_id t) = Some ns"
    unfolding loaded_inv_def by blast
  with assms(1) obtain u where u: "u \<in> set (tags s)" "tag_id u = tag_id t" "tag_namespace u = ns"
    unfolding loaded_inv_def by blast
  from assms(2) have "inj_on tag_id (set (tags s))" by (simp add: distinct_map)
  with u assms(3) have "u = t" by (auto dest: inj_onD)
  with u ns show ?thesis by (simp add: nsOf_def)
qed

lemma collect_merges_complete:
  assumes "collect_merges s stt es = Some ms" and "(a, t) \<in> set es"
    and "resolve stt t = Some b" and "b \<noteq> a" and "\<not> isOtherLike (nsOf s b)"
  shows "(a, b) \<in> set ms"
  using assms(1,2)
proof (induction es arbitrary: ms)
  case Nil
  then show ?case by simp
next
  case (Cons e es)
  obtain c u where e: "e = (c, u)" by (cases e)
  from Cons.prems(1) e obtain r ms' where
    r: "resolve stt u = Some r" and ms': "collect_merges s stt es = Some ms'" and
    ms: "ms = (if r = c then ms'
               else if isOtherLike (nsOf s c) \<and> isOtherLike (nsOf s r) then ms'
               else (c, r) # ms')"
    by (auto split: option.splits if_splits)
  show ?case
  proof (cases "(a, t) = e")
    case True
    with e r assms(3-5) ms show ?thesis by auto
  next
    case False
    with Cons.prems(2) have "(a, t) \<in> set es" by simp
    from Cons.IH [OF ms' this] ms show ?thesis by auto
  qed
qed

lemma categorised_unique:
  assumes "loaded_inv s" and "distinct (map tag_id (tags s))" and "categorised (tags s) b"
  shows "(\<exists>t \<in> set (tags s). tag_id t = b) \<and>
         (\<forall>t \<in> set (tags s). tag_id t = b \<longrightarrow> \<not> isOtherLike (tag_namespace t)) \<and>
         \<not> isOtherLike (nsOf s b)"
proof -
  from assms(3) obtain u where
    u: "u \<in> set (tags s)" "tag_id u = b" "\<not> isOtherLike (tag_namespace u)"
    unfolding categorised_def by blast
  from assms(2) have inj: "inj_on tag_id (set (tags s))" by (simp add: distinct_map)
  have "t = u" if "t \<in> set (tags s)" and "tag_id t = b" for t
    using that u inj by (auto dest: inj_onD)
  with u have "\<forall>t \<in> set (tags s). tag_id t = b \<longrightarrow> \<not> isOtherLike (tag_namespace t)"
    by blast
  moreover from nsOf_loaded [OF assms(1,2) u(1)] u have "\<not> isOtherLike (nsOf s b)" by simp
  ultimately show ?thesis using u by blast
qed

text \<open>
  Claim C10.  Let the catalog be loaded from any list of records, and let no id occur
  twice in it.  Then the planner returns a plan, and every \<open>targetId\<close> of the plan is the
  id of a loaded tag, that tag is not otherlike, and the namespace the filter looks up
  for the target is not otherlike.  So the otherlike-to-otherlike filter never drops an
  edge: every proposed edge whose resolved target differs from its source is in the plan.
\<close>

theorem targets_are_categorised:
  assumes "s = ingest its empty_state" and "distinct (map tag_id (tags s))"
  shows "\<exists>ms. merge_plan s = Some ms \<and>
           (\<forall>(a, b) \<in> set ms.
              (\<exists>t \<in> set (tags s). tag_id t = b) \<and>
              (\<forall>t \<in> set (tags s). tag_id t = b \<longrightarrow> \<not> isOtherLike (tag_namespace t)) \<and>
              \<not> isOtherLike (nsOf s b)) \<and>
           (\<forall>(a, t) \<in> set (sourceToTarget s). \<forall>b.
              resolve (sourceToTarget s) t = Some b \<and> b \<noteq> a \<longrightarrow> (a, b) \<in> set ms)"
proof -
  from assms(1) have inv: "loaded_inv s"
    by (simp add: loaded_inv_ingest loaded_inv_empty)
  from merge_plan_returns [of s] obtain ms0 where
    c: "collect_merges s (sourceToTarget s) (sourceToTarget s) = Some ms0" and
    p: "merge_plan s = Some (sort_key fst ms0)" by blast
  have 1: "(\<exists>t \<in> set (tags s). tag_id t = b) \<and>
           (\<forall>t \<in> set (tags s). tag_id t = b \<longrightarrow> \<not> isOtherLike (tag_namespace t)) \<and>
           \<not> isOtherLike (nsOf s b)"
    if "(a, b) \<in> set (sort_key fst ms0)" for a b
    using categorised_unique [OF inv assms(2) merge_plan_target [OF inv p that]] .
  have 2: "(a, b) \<in> set (sort_key fst ms0)"
    if e: "(a, t) \<in> set (sourceToTarget s)" and r: "resolve (sourceToTarget s) t = Some b"
      and ne: "b \<noteq> a" for a t b
  proof -
    from resolve_result [OF r] e obtain c where "(c, b) \<in> set (sourceToTarget s)" by force
    with inv have "categorised (tags s) b" by (rule sourceToTarget_target)
    with categorised_unique [OF inv assms(2)] have "\<not> isOtherLike (nsOf s b)" by blast
    from collect_merges_complete [OF c e r ne this] show ?thesis by simp
  qed
  from p 1 2 show ?thesis by blast
qed

theorem targets_are_categorised_witness:
  "distinct (map tag_id (tags (ingest absorb_catalog empty_state))) \<and>
   merge_plan (ingest absorb_catalog empty_state) = Some [(1, 2), (5, 2)] \<and>
   \<not> isOtherLike (nsOf (ingest absorb_catalog empty_state) 2)"
proof -
  have d: "distinct (map tag_id (tags (ingest absorb_catalog empty_state)))"
    by code_simp
  from targets_are_categorised [OF refl d] absorb_plan d show ?thesis by auto
qed

section \<open>The loader\<close>


lemma listed_items_append: "listed_items (xs @ ys) = listed_items xs @ listed_items ys"
  by (simp add: listed_items_def)

lemma merge_calls_append: "merge_calls (xs @ ys) = merge_calls xs @ merge_calls ys"
  by (simp add: merge_calls_def)

lemma pageSize_pos: "0 < pageSize_of p"
  by (simp add: pageSize_of_def)

lemma load_pages_returns:
  assumes "0 < pageSize"
  shows "\<exists>ev' r. load_pages h l pageSize n offset s ev = Some (ev @ ev', r) \<and>
           merge_calls ev' = [] \<and>
           (case r of
              Inl e \<Rightarrow> (\<exists>off. CallTagsList l pageSize off None \<in> set ev')
            | Inr s' \<Rightarrow> s' = ingest (listed_items ev') s)"
proof (induction "nat (n - offset)" arbitrary: offset s ev rule: less_induct)
  case less
  show ?case
  proof (cases "offset < n")
    case False
    then have "load_pages h l pageSize n offset s ev = Some (ev @ [], Inr s)"
      by (subst load_pages.simps) simp
    moreover have "merge_calls [] = []" and "s = ingest (listed_items []) s"
      by (simp_all add: merge_calls_def listed_items_def ingest_Nil)
    ultimately show ?thesis by (intro exI [of _ "[]"] exI [of _ "Inr s"]) simp
  next
    case True
    show ?thesis
    proof (cases "tags_list h l pageSize offset")
      case None
      let ?new = "[ReportProgress (Loading offset n), CallTagsList l pageSize offset None]"
      from True None have "load_pages h l pageSize n offset s ev =
        Some (ev @ ?new, Inl (HostCallRejected ''tags.list''))"
        by (subst load_pages.simps) simp
      moreover have "merge_calls ?new = []" by (simp add: merge_calls_def)
      moreover have "CallTagsList l pageSize offset None \<in> set ?new" by simp
      ultimately show ?thesis
        by (intro exI [of _ ?new] exI [of _ "Inl (HostCallRejected ''tags.list'')"]) auto
    next
      case (Some r)
      let ?new = "[ReportProgress (Loading offset n), CallTagsList l pageSize offset (Some r)]"
      from True assms have "nat (n - (offset + pageSize)) < nat (n - offset)" by simp
      from less [OF this, of "ingest (resp_items r) s" "ev @ ?new"] obtain ev' r' where
        l: "load_pages h l pageSize n (offset + pageSize) (ingest (resp_items r) s) (ev @ ?new) =
            Some ((ev @ ?new) @ ev', r')" and
        m: "merge_calls ev' = []" and
        c: "case r' of
              Inl e \<Rightarrow> (\<exists>off. CallTagsList l pageSize off None \<in> set ev')
            | Inr s' \<Rightarrow> s' = ingest (listed_items ev') (ingest (resp_items r) s)"
        by blast
      from True Some l have "load_pages h l pageSize n offset s ev = Some (ev @ (?new @ ev'), r')"
        by (subst load_pages.simps) simp
      moreover from m have "merge_calls (?new @ ev') = []"
        by (simp add: merge_calls_def)
      moreover have "listed_items (?new @ ev') = resp_items r @ listed_items ev'"
        by (simp add: listed_items_def)
      with c have "case r' of
              Inl e \<Rightarrow> (\<exists>off. CallTagsList l pageSize off None \<in> set (?new @ ev'))
            | Inr s' \<Rightarrow> s' = ingest (listed_items (?new @ ev')) s"
        by (auto simp add: ingest_append split: sum.splits)
      ultimately show ?thesis by blast
    qed
  qed
qed

lemma load_tags_returns:
  assumes "0 < pageSize"
  shows "\<exists>ev' r. load_tags h l pageSize ev = Some (ev @ ev', r) \<and>
           merge_calls ev' = [] \<and>
           (case r of
              Inl e \<Rightarrow> (\<exists>off. CallTagsList l pageSize off None \<in> set ev')
            | Inr s \<Rightarrow> s = ingest (listed_items ev') empty_state)"
proof (cases "tags_list h l pageSize 0")
  case None
  let ?new = "[CallTagsList l pageSize 0 None]"
  from None have "load_tags h l pageSize ev = Some (ev @ ?new, Inl (HostCallRejected ''tags.list''))"
    by (simp add: load_tags_def)
  moreover have "merge_calls ?new = []" by (simp add: merge_calls_def)
  moreover have "CallTagsList l pageSize 0 None \<in> set ?new" by simp
  ultimately show ?thesis
    by (intro exI [of _ ?new] exI [of _ "Inl (HostCallRejected ''tags.list'')"]) auto
next
  case (Some r)
  let ?new = "[CallTagsList l pageSize 0 (Some r)]"
  from load_pages_returns [OF assms, of h l "resp_total r" "0 + pageSize"
      "ingest (resp_items r) empty_state" "ev @ ?new"]
  obtain ev' r' where
    l: "load_pages h l pageSize (resp_total r) (0 + pageSize) (ingest (resp_items r) empty_state)
          (ev @ ?new) = Some ((ev @ ?new) @ ev', r')" and
    m: "merge_calls ev' = []" and
    c: "case r' of
          Inl e \<Rightarrow> (\<exists>off. CallTagsList l pageSize off None \<in> set ev')
        | Inr s' \<Rightarrow> s' = ingest (listed_items ev') (ingest (resp_items r) empty_state)"
    by blast
  from Some l have "load_tags h l pageSize ev = Some (ev @ (?new @ ev'), r')"
    by (simp add: load_tags_def)
  moreover from m have "merge_calls (?new @ ev') = []"
    by (simp add: merge_calls_def)
  moreover have "listed_items (?new @ ev') = resp_items r @ listed_items ev'"
    by (simp add: listed_items_def)
  with c have "case r' of
          Inl e \<Rightarrow> (\<exists>off. CallTagsList l pageSize off None \<in> set (?new @ ev'))
        | Inr s \<Rightarrow> s = ingest (listed_items (?new @ ev')) empty_state"
    by (auto simp add: ingest_append split: sum.splits)
  ultimately show ?thesis by blast
qed

lemma map_filter_normalized_ids:
  "map tag_id (List.map_filter normalized its) = retained_ids its"
proof (induction its)
  case Nil
  then show ?case by (simp add: map_filter_simps retained_ids_def)
next
  case (Cons it its)
  then show ?case
    by (cases "item_id it")
      (auto simp add: map_filter_simps retained_ids_def normalized_def split: option.splits)
qed

lemma retained_ids_pos: "i \<in> set (retained_ids its) \<Longrightarrow> 0 < i"
  by (auto simp add: retained_ids_def split: js_number.splits if_splits)

text \<open>
  Claim C8, as the loader has it.  With the page size that \<open>runPlugin\<close> derives from its
  parameters the loader returns for every host.  It fails only when the host has rejected
  a page request, never over a record.  Otherwise the loaded catalog consists of the
  records of the delivered pages whose id is a finite positive number, trimmed, in the
  order of delivery, and of all of them: a record with a non-finite or non-positive id
  is left out, and nothing is left out for repeating an id.  So the ids of the catalog
  are pairwise different exactly when no valid id occurs twice among the delivered
  records.
\<close>

theorem loader_retains_valid_records:
  "\<exists>ev r. load_tags h l (pageSize_of p) ev0 = Some (ev0 @ ev, r) \<and>
     (case r of
        Inl e \<Rightarrow> (\<exists>off. CallTagsList l (pageSize_of p) off None \<in> set ev)
      | Inr s \<Rightarrow>
          tags s = List.map_filter normalized (listed_items ev) \<and>
          map tag_id (tags s) = retained_ids (listed_items ev) \<and>
          (\<forall>i \<in> set (map tag_id (tags s)). 0 < i) \<and>
          distinct (map tag_id (tags s)) = distinct (retained_ids (listed_items ev)))"
proof -
  from load_tags_returns [OF pageSize_pos, of h l p ev0] obtain ev r where
    l: "load_tags h l (pageSize_of p) ev0 = Some (ev0 @ ev, r)" and
    c: "case r of
          Inl e \<Rightarrow> (\<exists>off. CallTagsList l (pageSize_of p) off None \<in> set ev)
        | Inr s \<Rightarrow> s = ingest (listed_items ev) empty_state"
    by blast
  show ?thesis
  proof (cases r)
    case (Inl e)
    with l c show ?thesis by auto
  next
    case (Inr s)
    with c have "tags s = List.map_filter normalized (listed_items ev)"
      by (simp add: ingest_tags empty_state_def)
    moreover from this have "map tag_id (tags s) = retained_ids (listed_items ev)"
      by (simp add: map_filter_normalized_ids)
    moreover from this have "\<forall>i \<in> set (map tag_id (tags s)). 0 < i"
      by (auto dest: retained_ids_pos)
    ultimately show ?thesis using l Inr by auto
  qed
qed

text \<open>Of the five records of \<open>malformed_host\<close> the two with valid ids are loaded.\<close>

theorem loader_retains_valid_records_witness:
  "\<exists>ev s. load_tags malformed_host ''zh'' (pageSize_of default_params) [] = Some (ev, Inr s) \<and>
          map tag_id (tags s) = [4, 9]"
proof -
  have "case load_tags malformed_host ''zh'' (pageSize_of default_params) [] of
          Some (ev, Inr s) \<Rightarrow> retained_ids (listed_items ev) = [4, 9]
        | _ \<Rightarrow> False"
    by code_simp
  with loader_retains_valid_records [of malformed_host "''zh''" default_params "[]"]
  show ?thesis by (auto split: option.splits sum.splits)
qed

text \<open>
  Claim C8 as stated fails: ids need not be unique in the loaded catalog.  On
  \<open>shifting_host\<close>, read with page size 1, both pages deliver the tag of id 1, and the
  catalog holds it twice.
\<close>

theorem loader_keeps_repeated_id:
  "\<exists>ev s. load_tags shifting_host ''zh'' 1 [] = Some (ev, Inr s) \<and>
          map tag_id (tags s) = [1, 1] \<and> \<not> distinct (map tag_id (tags s))"
proof -
  have h: "case load_tags shifting_host ''zh'' 1 [] of
             Some (ev, Inr s) \<Rightarrow> map tag_id (tags s) = [1, 1]
           | _ \<Rightarrow> False"
    by code_simp
  then obtain ev r where e: "load_tags shifting_host ''zh'' 1 [] = Some (ev, r)"
    by (auto split: option.splits)
  with h obtain s where "r = Inr s" and "map tag_id (tags s) = [1, 1]"
    by (cases r) auto
  with e show ?thesis by auto
qed

section \<open>Dry run\<close>

text \<open>
  Claim C2.  When the dry-run flag is true, \<open>runPlugin\<close> returns for every host and makes
  no call to \<open>tags.merge\<close>.  When the loader has delivered a catalog, the run returns
  normally and its last events are the plan preview (the first 200 entries of the plan
  with the plan's true length) and the success result with the number of loaded tags and
  the number of planned merges.
\<close>

theorem dry_run_never_merges:
  assumes "dryRun_of p"
  shows "\<exists>ev out. runPlugin h p = Some (ev, out) \<and> merge_calls ev = [] \<and>
           (\<forall>ev1 s. load_tags h (lang_of p) (pageSize_of p) [LogInfo ''tag_merge started'']
                       = Some (ev1, Inr s) \<longrightarrow>
              (\<exists>ms. merge_plan s = Some ms \<and> out = Inr () \<and>
                 ev = ev1 @
                   [ReportProgress (Building (length (tags s))),
                    LogInfo ''merge plan built'',
                    EmitMergePlan (take 200 ms) (length ms),
                    OutputResult \<lparr>res_dry_run = True,
                                  res_total_tags = length (tags s),
                                  res_planned_merges = length ms,
                                  res_applied_merges = None\<rparr>]))"
proof -
  let ?ev0 = "[LogInfo ''tag_merge started'']"
  from load_tags_returns [OF pageSize_pos, of h "lang_of p" p ?ev0] obtain ev' r where
    l: "load_tags h (lang_of p) (pageSize_of p) ?ev0 = Some (?ev0 @ ev', r)" and
    m: "merge_calls ev' = []"
    by blast
  from m have m0: "merge_calls (?ev0 @ ev') = []" by (simp add: merge_calls_def)
  show ?thesis
  proof (cases r)
    case (Inl e)
    with l have "runPlugin h p = Some (?ev0 @ ev', Inl e)" by (simp add: runPlugin_def)
    with m0 l Inl show ?thesis by auto
  next
    case (Inr s)
    from merge_plan_returns [of s] obtain ms where p: "merge_plan s = Some ms" by blast
    let ?tail = "[ReportProgress (Building (length (tags s))),
                  LogInfo ''merge plan built'',
                  EmitMergePlan (take 200 ms) (length ms),
                  OutputResult \<lparr>res_dry_run = True,
                                res_total_tags = length (tags s),
                                res_planned_merges = length ms,
                                res_applied_merges = None\<rparr>]"
    from l Inr p assms have "runPlugin h p = Some ((?ev0 @ ev') @ ?tail, Inr ())"
      by (simp add: runPlugin_def)
    moreover from m0 have "merge_calls ((?ev0 @ ev') @ ?tail) = []"
      by (simp add: merge_calls_def)
    ultimately show ?thesis using l Inr p by auto
  qed
qed

text \<open>The default parameters make a dry run; on \<open>absorb_host\<close> the plan has two entries.\<close>

theorem dry_run_never_merges_witness:
  "dryRun_of default_params \<and>
   runPlugin absorb_host default_params =
     Some ([LogInfo ''tag_merge started'',
            CallTagsList ''zh'' 1000 0 (Some \<lparr>resp_total = 3, resp_items = absorb_catalog\<rparr>),
            ReportProgress (Building 3),
            LogInfo ''merge plan built'',
            EmitMergePlan [(1, 2), (5, 2)] 2,
            OutputResult \<lparr>res_dry_run = True, res_total_tags = 3, res_planned_merges = 2,
                          res_applied_merges = None\<rparr>], Inr ())"
proof -
  have d: "dryRun_of default_params" by (simp add: dryRun_of_def default_params_def)
  have l: "load_tags absorb_host (lang_of default_params) (pageSize_of default_params)
             [LogInfo ''tag_merge started''] =
           Some ([LogInfo ''tag_merge started'',
                  CallTagsList ''zh'' 1000 0 (Some \<lparr>resp_total = 3, resp_items = absorb_catalog\<rparr>)],
                 Inr (ingest absorb_catalog empty_state))"
    by code_simp
  have n: "length (tags (ingest absorb_catalog empty_state)) = 3" by code_simp
  from dry_run_never_merges [OF d, of absorb_host] l absorb_plan n d show ?thesis by auto
qed

end
